theory Spec2Isabelle
  imports Main "HOL-Library.Monad_Syntax"
begin

section \<open>Connect Four: board model, win detection, heuristic and minimax\<close>

text \<open>
  A shallow embedding of \<^verbatim>\<open>ai_studio_code.py\<close>. A cell is a Python string, a board a
  list of rows (row 0 is the bottom row), each row a list of cells. Every function that
  can raise in Python returns an \<open>option\<close>: \<open>None\<close> stands for a raised exception
  (an \<^verbatim>\<open>IndexError\<close> of a list access, a \<^verbatim>\<open>TypeError\<close> of indexing with Python's
  \<^verbatim>\<open>None\<close>), \<open>Some v\<close> for a normal return of \<open>v\<close>. Boards are values: the rows of a
  board are distinct objects, as \<^verbatim>\<open>create_board\<close> builds them.
\<close>

subsection \<open>Constants\<close>

type_synonym cell = string
type_synonym board = "cell list list"

abbreviation ROW_COUNT :: nat where "ROW_COUNT \<equiv> 6"
abbreviation COLUMN_COUNT :: nat where "COLUMN_COUNT \<equiv> 7"
abbreviation PLAYER_PIECE :: cell where "PLAYER_PIECE \<equiv> ''X''"
abbreviation AI_PIECE :: cell where "AI_PIECE \<equiv> ''O''"
abbreviation EMPTY :: cell where "EMPTY \<equiv> ''-''"
abbreviation WINDOW_LENGTH :: nat where "WINDOW_LENGTH \<equiv> 4"

subsection \<open>Python list primitives\<close>

text \<open>\<^verbatim>\<open>xs[i]\<close> for an index \<open>i \<ge> 0\<close>: raises \<^verbatim>\<open>IndexError\<close> out of range.\<close>

definition item :: "'a list \<Rightarrow> nat \<Rightarrow> 'a option" where
  "item xs i = (if i < length xs then Some (xs ! i) else None)"

text \<open>\<^verbatim>\<open>board[r][c]\<close>.\<close>

definition cell_at :: "board \<Rightarrow> nat \<Rightarrow> nat \<Rightarrow> cell option" where
  "cell_at board r c = do { row \<leftarrow> item board r; item row c }"

text \<open>\<^verbatim>\<open>xs[a:b]\<close> for \<open>0 \<le> a \<le> b\<close>: a slice never raises, it is cut at the end of the list.\<close>

definition slice :: "'a list \<Rightarrow> nat \<Rightarrow> nat \<Rightarrow> 'a list" where
  "slice xs a b = take (b - a) (drop a xs)"

text \<open>A list comprehension \<^verbatim>\<open>[f(x) for x in xs]\<close> whose element expression can raise.\<close>

fun comprehension :: "('a \<Rightarrow> 'b option) \<Rightarrow> 'a list \<Rightarrow> 'b list option" where
  "comprehension f [] = Some []"
| "comprehension f (x # xs) = do { y \<leftarrow> f x; ys \<leftarrow> comprehension f xs; Some (y # ys) }"

text \<open>
  The loop \<^verbatim>\<open>for x in xs: if cond(x): return True\<close>, which falls through when no
  element satisfies the condition: the result says whether the loop returned.
\<close>

fun return_if_any :: "'a list \<Rightarrow> ('a \<Rightarrow> bool option) \<Rightarrow> bool option" where
  "return_if_any [] cond = Some False"
| "return_if_any (x # xs) cond =
     do { hit \<leftarrow> cond x; if hit then Some True else return_if_any xs cond }"

text \<open>The loop \<^verbatim>\<open>for x in xs: body\<close> whose body updates one local variable \<open>s\<close>.\<close>

fun for_each :: "'a list \<Rightarrow> 's \<Rightarrow> ('a \<Rightarrow> 's \<Rightarrow> 's option) \<Rightarrow> 's option" where
  "for_each [] s body = Some s"
| "for_each (x # xs) s body = do { s' \<leftarrow> body x s; for_each xs s' body }"

text \<open>Python's short-circuit \<^verbatim>\<open>a and b\<close> and \<^verbatim>\<open>a or b\<close> on booleans: \<open>b\<close> is evaluated,
  and can raise, only when \<open>a\<close> does not decide the result.\<close>

definition and_then :: "bool option \<Rightarrow> bool option \<Rightarrow> bool option" where
  "and_then a b = do { x \<leftarrow> a; if x then b else Some False }"

definition or_else :: "bool option \<Rightarrow> bool option \<Rightarrow> bool option" where
  "or_else a b = do { x \<leftarrow> a; if x then Some True else b }"

subsection \<open>Board management\<close>

definition create_board :: board where
  "create_board = replicate ROW_COUNT (replicate COLUMN_COUNT EMPTY)"

text \<open>\<^verbatim>\<open>board[row][col] = piece\<close>. The row comes from \<^verbatim>\<open>get_next_open_row\<close>, which
  returns Python's \<^verbatim>\<open>None\<close> for a full column; indexing with it raises.\<close>

definition drop_piece :: "board \<Rightarrow> nat option \<Rightarrow> nat \<Rightarrow> cell \<Rightarrow> board option" where
  "drop_piece board row col piece =
     (case row of
        None \<Rightarrow> None
      | Some r \<Rightarrow>
          if r < length board \<and> col < length (board ! r)
          then Some (board[r := (board ! r)[col := piece]])
          else None)"

definition is_valid_location :: "board \<Rightarrow> nat \<Rightarrow> bool option" where
  "is_valid_location board col =
     do { x \<leftarrow> cell_at board (ROW_COUNT - 1) col; Some (x = EMPTY) }"

text \<open>The loop of \<^verbatim>\<open>get_next_open_row\<close> over the remaining rows; falling off its end is
  Python's implicit \<^verbatim>\<open>return None\<close>, the inner \<open>None\<close>.\<close>

fun next_open_row_from :: "board \<Rightarrow> nat \<Rightarrow> nat list \<Rightarrow> nat option option" where
  "next_open_row_from board col [] = Some None"
| "next_open_row_from board col (r # rs) =
     do { x \<leftarrow> cell_at board r col;
          if x = EMPTY then Some (Some r) else next_open_row_from board col rs }"

definition get_next_open_row :: "board \<Rightarrow> nat \<Rightarrow> nat option option" where
  "get_next_open_row board col = next_open_row_from board col [0..<ROW_COUNT]"

fun valid_locations_from :: "board \<Rightarrow> nat list \<Rightarrow> nat list \<Rightarrow> nat list option" where
  "valid_locations_from board [] valid_locations = Some valid_locations"
| "valid_locations_from board (col # cols) valid_locations =
     do { ok \<leftarrow> is_valid_location board col;
          valid_locations_from board cols
            (if ok then valid_locations @ [col] else valid_locations) }"

definition get_valid_locations :: "board \<Rightarrow> nat list option" where
  "get_valid_locations board = valid_locations_from board [0..<COLUMN_COUNT] []"

subsection \<open>Win detection\<close>

definition cell_is :: "board \<Rightarrow> nat \<Rightarrow> nat \<Rightarrow> cell \<Rightarrow> bool option" where
  "cell_is board r c piece = do { x \<leftarrow> cell_at board r c; Some (x = piece) }"

definition winning_move :: "board \<Rightarrow> cell \<Rightarrow> bool option" where
  "winning_move board piece =
     or_else
       (return_if_any [0..<COLUMN_COUNT - 3] (\<lambda>c. return_if_any [0..<ROW_COUNT] (\<lambda>r.
          and_then (cell_is board r c piece) (and_then (cell_is board r (c + 1) piece)
         (and_then (cell_is board r (c + 2) piece) (cell_is board r (c + 3) piece))))))
    (or_else
       (return_if_any [0..<COLUMN_COUNT] (\<lambda>c. return_if_any [0..<ROW_COUNT - 3] (\<lambda>r.
          and_then (cell_is board r c piece) (and_then (cell_is board (r + 1) c piece)
         (and_then (cell_is board (r + 2) c piece) (cell_is board (r + 3) c piece))))))
    (or_else
       (return_if_any [0..<COLUMN_COUNT - 3] (\<lambda>c. return_if_any [0..<ROW_COUNT - 3] (\<lambda>r.
          and_then (cell_is board r c piece) (and_then (cell_is board (r + 1) (c + 1) piece)
         (and_then (cell_is board (r + 2) (c + 2) piece) (cell_is board (r + 3) (c + 3) piece))))))
       (return_if_any [0..<COLUMN_COUNT - 3] (\<lambda>c. return_if_any [3..<ROW_COUNT] (\<lambda>r.
          and_then (cell_is board r c piece) (and_then (cell_is board (r - 1) (c + 1) piece)
         (and_then (cell_is board (r - 2) (c + 2) piece) (cell_is board (r - 3) (c + 3) piece))))))))"

definition is_terminal_node :: "board \<Rightarrow> bool option" where
  "is_terminal_node board =
     or_else (winning_move board PLAYER_PIECE)
    (or_else (winning_move board AI_PIECE)
       (do { valid_locations \<leftarrow> get_valid_locations board;
             Some (length valid_locations = 0) }))"

subsection \<open>Heuristic\<close>

definition evaluate_window :: "cell list \<Rightarrow> cell \<Rightarrow> int" where
  "evaluate_window window piece =
     (let score = 0;
          opp_piece = (if piece = PLAYER_PIECE then AI_PIECE else PLAYER_PIECE);
          score =
            (if count_list window piece = 4 then score + 100
             else if count_list window piece = 3 \<and> count_list window EMPTY = 1 then score + 5
             else if count_list window piece = 2 \<and> count_list window EMPTY = 2 then score + 2
             else score);
          score =
            (if count_list window opp_piece = 3 \<and> count_list window EMPTY = 1 then score - 4
             else score)
      in score)"

definition score_position :: "board \<Rightarrow> cell \<Rightarrow> int option" where
  "score_position board piece =
     do { let score = 0;
          center_array \<leftarrow> comprehension (\<lambda>i. item i (COLUMN_COUNT div 2)) board;
          let center_count = count_list center_array piece;
          let score = score + int center_count * 3;
          score \<leftarrow> for_each [0..<ROW_COUNT] score (\<lambda>r score.
            do { row_array \<leftarrow> item board r;
                 for_each [0..<COLUMN_COUNT - 3] score (\<lambda>c score.
                   do { let window = slice row_array c (c + WINDOW_LENGTH);
                        Some (score + evaluate_window window piece) }) });
          score \<leftarrow> for_each [0..<COLUMN_COUNT] score (\<lambda>c score.
            do { col_array \<leftarrow> comprehension (\<lambda>row. item row c) board;
                 for_each [0..<ROW_COUNT - 3] score (\<lambda>r score.
                   do { let window = slice col_array r (r + WINDOW_LENGTH);
                        Some (score + evaluate_window window piece) }) });
          score \<leftarrow> for_each [0..<ROW_COUNT - 3] score (\<lambda>r score.
            for_each [0..<COLUMN_COUNT - 3] score (\<lambda>c score.
              do { window \<leftarrow> comprehension (\<lambda>i. cell_at board (r + i) (c + i)) [0..<WINDOW_LENGTH];
                   Some (score + evaluate_window window piece) }));
          score \<leftarrow> for_each [0..<ROW_COUNT - 3] score (\<lambda>r score.
            for_each [0..<COLUMN_COUNT - 3] score (\<lambda>c score.
              do { window \<leftarrow> comprehension (\<lambda>i. cell_at board (r + 3 - i) (c + i)) [0..<WINDOW_LENGTH];
                   Some (score + evaluate_window window piece) }));
          Some score }"

subsection \<open>Minimax\<close>

text \<open>A score is a Python number: an integer, or one of the floats \<^verbatim>\<open>-math.inf\<close> and
  \<^verbatim>\<open>math.inf\<close> the search starts from. \<open>score_less a b\<close> is Python's \<^verbatim>\<open>a < b\<close> on them.\<close>

datatype score = MinusInf | IntVal int | PlusInf

fun score_less :: "score \<Rightarrow> score \<Rightarrow> bool" where
  "score_less MinusInf b = (b \<noteq> MinusInf)"
| "score_less (IntVal a) MinusInf = False"
| "score_less (IntVal a) (IntVal b) = (a < b)"
| "score_less (IntVal a) PlusInf = True"
| "score_less PlusInf b = False"

text \<open>
  The random generator is the stream of the raw draws still to come.
  \<^verbatim>\<open>random.choice(xs)\<close> raises \<^verbatim>\<open>IndexError\<close> on an empty list and otherwise
  returns the element the next draw selects.
\<close>

type_synonym rng = "nat \<Rightarrow> nat"

definition random_choice :: "rng \<Rightarrow> 'a list \<Rightarrow> ('a \<times> rng) option" where
  "random_choice g xs =
     (if xs = [] then None else Some (xs ! (g 0 mod length xs), \<lambda>n. g (Suc n)))"

text \<open>The number of Empty cells of a board: every simulated move of the search fills one.\<close>

definition empty_cells :: "board \<Rightarrow> nat" where
  "empty_cells board = sum_list (map (\<lambda>row. count_list row EMPTY) board)"

text \<open>Filling an Empty cell with a piece lowers the number of Empty cells: the measure
  of the search's recursion, which therefore ends on every board and for every depth,
  negative depths included.\<close>

lemma count_list_update_less:
  "c < length row \<Longrightarrow> row ! c = x \<Longrightarrow> p \<noteq> x \<Longrightarrow> Suc (count_list (row[c := p]) x) = count_list row x"
proof (induction row arbitrary: c)
  case Nil
  then show ?case by simp
next
  case (Cons a row)
  then show ?case by (cases c) auto
qed

lemma empty_cells_update:
  "r < length b \<Longrightarrow> c < length (b ! r) \<Longrightarrow> b ! r ! c = EMPTY \<Longrightarrow> p \<noteq> EMPTY \<Longrightarrow>
   Suc (empty_cells (b[r := (b ! r)[c := p]])) = empty_cells b"
proof (induction b arbitrary: r)
  case Nil
  then show ?case by simp
next
  case (Cons row b)
  show ?case
  proof (cases r)
    case 0
    with Cons.prems show ?thesis
      using count_list_update_less [of c row EMPTY p] by (simp add: empty_cells_def)
  next
    case (Suc r')
    with Cons.prems Cons.IH [of r'] show ?thesis
      by (simp add: empty_cells_def)
  qed
qed

lemma next_open_row_from_Some:
  "next_open_row_from b col rs = Some (Some r) \<Longrightarrow> cell_at b r col = Some EMPTY"
  by (induction rs) (auto split: bind_splits if_splits)

lemma cell_at_Some:
  "cell_at b r c = Some x \<longleftrightarrow> r < length b \<and> c < length (b ! r) \<and> b ! r ! c = x"
  by (auto simp: cell_at_def item_def split: bind_splits if_splits)

lemma drop_piece_empty_cells:
  assumes "get_next_open_row b col = Some row" and "drop_piece b row col p = Some b'"
    and "p \<noteq> EMPTY"
  shows "empty_cells b' < empty_cells b"
proof -
  from assms(2) obtain r where r: "row = Some r" "r < length b" "col < length (b ! r)"
      "b' = b[r := (b ! r)[col := p]]"
    by (auto simp: drop_piece_def split: option.splits if_splits)
  from assms(1) r(1) have "cell_at b r col = Some EMPTY"
    by (auto simp: get_next_open_row_def dest: next_open_row_from_Some)
  then have "b ! r ! col = EMPTY" by (simp add: cell_at_Some)
  with r assms(3) show ?thesis
    using empty_cells_update [of r b col p] by simp
qed

text \<open>
  \<^verbatim>\<open>minimax\<close> with its two loops: \<open>maximize\<close> is the loop of the maximizing branch over
  the columns still to visit, \<open>minimize\<close> that of the minimizing branch; \<open>val\<close> and
  \<open>column\<close> are the loop's variables \<^verbatim>\<open>value\<close> and \<^verbatim>\<open>column\<close>. The board copy
  \<^verbatim>\<open>b_copy\<close> is the new board value. The generator is threaded through every call.
\<close>

function minimax :: "rng \<Rightarrow> board \<Rightarrow> int \<Rightarrow> bool \<Rightarrow> ((nat option \<times> score) \<times> rng) option"
  and maximize :: "rng \<Rightarrow> board \<Rightarrow> int \<Rightarrow> nat list \<Rightarrow> score \<Rightarrow> nat \<Rightarrow> ((nat \<times> score) \<times> rng) option"
  and minimize :: "rng \<Rightarrow> board \<Rightarrow> int \<Rightarrow> nat list \<Rightarrow> score \<Rightarrow> nat \<Rightarrow> ((nat \<times> score) \<times> rng) option"
where
  "minimax g board depth maximizingPlayer =
     do { valid_locations \<leftarrow> get_valid_locations board;
          is_terminal \<leftarrow> is_terminal_node board;
          if depth = 0 \<or> is_terminal then
            if is_terminal then
              do { ai_wins \<leftarrow> winning_move board AI_PIECE;
                   if ai_wins then Some ((None, IntVal 100000000000000), g)
                   else do { player_wins \<leftarrow> winning_move board PLAYER_PIECE;
                             if player_wins then Some ((None, IntVal (- 10000000000000)), g)
                             else Some ((None, IntVal 0), g) } }
            else
              do { s \<leftarrow> score_position board AI_PIECE; Some ((None, IntVal s), g) }
          else if maximizingPlayer then
            do { (column, g) \<leftarrow> random_choice g valid_locations;
                 ((column, val), g) \<leftarrow> maximize g board depth valid_locations MinusInf column;
                 Some ((Some column, val), g) }
          else
            do { (column, g) \<leftarrow> random_choice g valid_locations;
                 ((column, val), g) \<leftarrow> minimize g board depth valid_locations PlusInf column;
                 Some ((Some column, val), g) } }"
| "maximize g board depth [] val column = Some ((column, val), g)"
| "maximize g board depth (col # cols) val column =
     do { row \<leftarrow> get_next_open_row board col;
          b_copy \<leftarrow> drop_piece board row col AI_PIECE;
          ((_, new_score), g) \<leftarrow> minimax g b_copy (depth - 1) False;
          if score_less val new_score then maximize g board depth cols new_score col
          else maximize g board depth cols val column }"
| "minimize g board depth [] val column = Some ((column, val), g)"
| "minimize g board depth (col # cols) val column =
     do { row \<leftarrow> get_next_open_row board col;
          b_copy \<leftarrow> drop_piece board row col PLAYER_PIECE;
          ((_, new_score), g) \<leftarrow> minimax g b_copy (depth - 1) True;
          if score_less new_score val then minimize g board depth cols new_score col
          else minimize g board depth cols val column }"
  by pat_completeness auto
termination
  apply (relation "inv_image (less_than <*lex*> less_than <*lex*> less_than)
     (\<lambda>x. case x of
        Inl (g, board, depth, m) \<Rightarrow> (empty_cells board, 1, 0)
      | Inr (Inl (g, board, depth, cols, v, c)) \<Rightarrow> (empty_cells board, 0, length cols)
      | Inr (Inr (g, board, depth, cols, v, c)) \<Rightarrow> (empty_cells board, 0, length cols))")
  apply (auto simp: drop_piece_empty_cells)
  done

declare minimax.simps [simp del]

subsection \<open>Well-formed boards\<close>

text \<open>The boards of the program are grids of \<open>ROW_COUNT\<close> rows of \<open>COLUMN_COUNT\<close> cells.\<close>

definition wf_board :: "board \<Rightarrow> bool" where
  "wf_board board \<longleftrightarrow> length board = ROW_COUNT \<and> list_all (\<lambda>row. length row = COLUMN_COUNT) board"

subsection \<open>Notions used in the statements\<close>

text \<open>The opposing piece, as \<^verbatim>\<open>evaluate_window\<close> computes it: the human's piece unless
  the scored piece is the human's.\<close>

definition opponent :: "cell \<Rightarrow> cell" where
  "opponent piece = (if piece = PLAYER_PIECE then AI_PIECE else PLAYER_PIECE)"

text \<open>The invariant of the board: in a column, below an occupied cell every cell is
  occupied, so the occupied cells of each column are contiguous from row 0 upward.\<close>

definition column_contiguous :: "board \<Rightarrow> nat \<Rightarrow> bool" where
  "column_contiguous board c \<longleftrightarrow>
     list_all (\<lambda>r. board ! r ! c \<noteq> EMPTY \<longrightarrow> list_all (\<lambda>r'. board ! r' ! c \<noteq> EMPTY) [0..<r])
       [0..<ROW_COUNT]"

definition gravity :: "board \<Rightarrow> bool" where
  "gravity board \<longleftrightarrow> list_all (column_contiguous board) [0..<COLUMN_COUNT]"

text \<open>A run of four cells holding the piece, in a row, in a column or on a diagonal of
  either slope: the meaning of \<^verbatim>\<open>winning_move\<close> on a 6 by 7 board.\<close>

definition four_in_a_row :: "board \<Rightarrow> cell \<Rightarrow> bool" where
  "four_in_a_row board piece \<longleftrightarrow>
     list_ex (\<lambda>c. list_ex (\<lambda>r.
        board ! r ! c = piece \<and> board ! r ! (c + 1) = piece
        \<and> board ! r ! (c + 2) = piece \<and> board ! r ! (c + 3) = piece) [0..<6]) [0..<4]
   \<or> list_ex (\<lambda>c. list_ex (\<lambda>r.
        board ! r ! c = piece \<and> board ! (r + 1) ! c = piece
        \<and> board ! (r + 2) ! c = piece \<and> board ! (r + 3) ! c = piece) [0..<3]) [0..<7]
   \<or> list_ex (\<lambda>c. list_ex (\<lambda>r.
        board ! r ! c = piece \<and> board ! (r + 1) ! (c + 1) = piece
        \<and> board ! (r + 2) ! (c + 2) = piece \<and> board ! (r + 3) ! (c + 3) = piece) [0..<3]) [0..<4]
   \<or> list_ex (\<lambda>c. list_ex (\<lambda>r.
        board ! r ! c = piece \<and> board ! (r - 1) ! (c + 1) = piece
        \<and> board ! (r - 2) ! (c + 2) = piece \<and> board ! (r - 3) ! (c + 3) = piece) [3..<6]) [0..<4]"

text \<open>The board turned by 180 degrees: the order of the rows and the order of the cells
  of each row are both reversed.\<close>

definition rotate180 :: "board \<Rightarrow> board" where
  "rotate180 board = rev (map rev board)"

text \<open>
  The windows of the board as the specification names them: every run of 4 cells in a
  row (24), in a column (21), on a diagonal of positive slope (12) and on a diagonal of
  negative slope (12), each given by the cells it holds. \<open>center_count\<close> is the number
  of cells of the centre column, column 3, that hold the piece.
\<close>

definition all_windows :: "board \<Rightarrow> cell list list" where
  "all_windows board =
     concat (map (\<lambda>r. map (\<lambda>c. map (\<lambda>i. board ! r ! (c + i)) [0..<4]) [0..<4]) [0..<6])
   @ concat (map (\<lambda>c. map (\<lambda>r. map (\<lambda>i. board ! (r + i) ! c) [0..<4]) [0..<3]) [0..<7])
   @ concat (map (\<lambda>r. map (\<lambda>c. map (\<lambda>i. board ! (r + i) ! (c + i)) [0..<4]) [0..<4]) [0..<3])
   @ concat (map (\<lambda>r. map (\<lambda>c. map (\<lambda>i. board ! (r + 3 - i) ! (c + i)) [0..<4]) [0..<4]) [0..<3])"

definition center_count :: "board \<Rightarrow> cell \<Rightarrow> nat" where
  "center_count board piece = count_list (map (\<lambda>row. row ! 3) board) piece"

definition window_sum :: "board \<Rightarrow> cell \<Rightarrow> int" where
  "window_sum board piece = (\<Sum>w\<leftarrow>all_windows board. evaluate_window w piece)"

text \<open>
  \<open>returns call r\<close>: the call returns \<open>r\<close>, without raising, whatever the state of the
  random generator is. \<open>terminal\<close> is the meaning of \<^verbatim>\<open>is_terminal_node\<close> on a 6 by 7
  board: a four in a row of either piece, or no column with an Empty top cell.
\<close>

definition returns :: "(rng \<Rightarrow> ('a \<times> rng) option) \<Rightarrow> 'a \<Rightarrow> bool" where
  "returns call r \<longleftrightarrow> (\<forall>g. \<exists>g'. call g = Some (r, g'))"

definition terminal :: "board \<Rightarrow> bool" where
  "terminal board \<longleftrightarrow>
     four_in_a_row board PLAYER_PIECE \<or> four_in_a_row board AI_PIECE
     \<or> filter (\<lambda>c. board ! 5 ! c = EMPTY) [0..<7] = []"

text \<open>The columns a loop of the search still has to visit all accept a piece.\<close>

definition valid_cols :: "board \<Rightarrow> nat list \<Rightarrow> bool" where
  "valid_cols b cols \<longleftrightarrow> list_all (\<lambda>c. c < 7 \<and> b ! 5 ! c = EMPTY) cols"

text \<open>A generator whose every draw is 0, and four example positions: a win of the
  computer's piece in the bottom row, a win of the human's piece in the bottom row, a
  board where both pieces have four in a row, and a full board without any four in a
  row.\<close>

definition fixed_rng :: rng where
  "fixed_rng n = 0"

definition example_ai_row :: board where
  "example_ai_row =
     [[AI_PIECE, AI_PIECE, AI_PIECE, AI_PIECE, PLAYER_PIECE, PLAYER_PIECE, PLAYER_PIECE],
      replicate COLUMN_COUNT EMPTY, replicate COLUMN_COUNT EMPTY, replicate COLUMN_COUNT EMPTY,
      replicate COLUMN_COUNT EMPTY, replicate COLUMN_COUNT EMPTY]"

definition example_player_row :: board where
  "example_player_row =
     [[PLAYER_PIECE, PLAYER_PIECE, PLAYER_PIECE, PLAYER_PIECE, AI_PIECE, AI_PIECE, AI_PIECE],
      replicate COLUMN_COUNT EMPTY, replicate COLUMN_COUNT EMPTY, replicate COLUMN_COUNT EMPTY,
      replicate COLUMN_COUNT EMPTY, replicate COLUMN_COUNT EMPTY]"

definition example_both :: board where
  "example_both =
     [[AI_PIECE, AI_PIECE, AI_PIECE, AI_PIECE, EMPTY, EMPTY, EMPTY],
      [PLAYER_PIECE, PLAYER_PIECE, PLAYER_PIECE, PLAYER_PIECE, EMPTY, EMPTY, EMPTY],
      replicate COLUMN_COUNT EMPTY, replicate COLUMN_COUNT EMPTY,
      replicate COLUMN_COUNT EMPTY, replicate COLUMN_COUNT EMPTY]"

definition example_draw :: board where
  "example_draw =
     [[PLAYER_PIECE, AI_PIECE, PLAYER_PIECE, AI_PIECE, PLAYER_PIECE, AI_PIECE, PLAYER_PIECE],
      [PLAYER_PIECE, AI_PIECE, PLAYER_PIECE, AI_PIECE, PLAYER_PIECE, AI_PIECE, PLAYER_PIECE],
      [AI_PIECE, PLAYER_PIECE, AI_PIECE, PLAYER_PIECE, AI_PIECE, PLAYER_PIECE, AI_PIECE],
      [AI_PIECE, PLAYER_PIECE, AI_PIECE, PLAYER_PIECE, AI_PIECE, PLAYER_PIECE, AI_PIECE],
      [PLAYER_PIECE, AI_PIECE, PLAYER_PIECE, AI_PIECE, PLAYER_PIECE, AI_PIECE, PLAYER_PIECE],
      [PLAYER_PIECE, AI_PIECE, PLAYER_PIECE, AI_PIECE, PLAYER_PIECE, AI_PIECE, PLAYER_PIECE]]"

subsection \<open>Facts about the primitives\<close>

lemma wf_board_nth: "wf_board b \<Longrightarrow> r < 6 \<Longrightarrow> length (b ! r) = 7"
  by (simp add: wf_board_def list_all_length)

lemma cell_at_wf: "wf_board b \<Longrightarrow> r < 6 \<Longrightarrow> c < 7 \<Longrightarrow> cell_at b r c = Some (b ! r ! c)"
  by (simp add: cell_at_def item_def wf_board_nth) (simp add: wf_board_def)

lemma wf_create_board: "wf_board create_board"
  by (simp add: wf_board_def create_board_def list_all_iff)

lemma valid_locations_from_wf:
  "wf_board b \<Longrightarrow> \<forall>c \<in> set cols. c < 7 \<Longrightarrow>
   valid_locations_from b cols acc = Some (acc @ filter (\<lambda>c. b ! 5 ! c = EMPTY) cols)"
  by (induction cols arbitrary: acc) (simp_all add: is_valid_location_def cell_at_wf)

lemma get_valid_locations_wf:
  "wf_board b \<Longrightarrow> get_valid_locations b = Some (filter (\<lambda>c. b ! 5 ! c = EMPTY) [0..<7])"
  by (simp add: get_valid_locations_def valid_locations_from_wf)

subsection \<open>Valid moves\<close>

text \<open>
  C8. On every 6 by 7 board \<open>get_valid_locations\<close> returns, without raising, exactly the
  columns \<open>c\<close> in \<open>[0, 7)\<close> whose top cell \<open>board[5][c]\<close> is Empty, in strictly ascending
  order.
\<close>

theorem get_valid_locations_exact:
  assumes "wf_board b"
  shows "\<exists>cols. get_valid_locations b = Some cols
           \<and> set cols = {c. c < COLUMN_COUNT \<and> b ! (ROW_COUNT - 1) ! c = EMPTY}
           \<and> sorted_wrt (<) cols
           \<and> cols = filter (\<lambda>c. is_valid_location b c = Some True) [0..<COLUMN_COUNT]"
proof -
  let ?cols = "filter (\<lambda>c. b ! 5 ! c = EMPTY) [0..<7]"
  have "get_valid_locations b = Some ?cols"
    using assms by (rule get_valid_locations_wf)
  moreover have "set ?cols = {c. c < 7 \<and> b ! (6 - 1) ! c = EMPTY}"
    by auto
  moreover have "sorted_wrt (<) ?cols"
    by (rule sorted_wrt_filter) simp
  moreover have "?cols = filter (\<lambda>c. is_valid_location b c = Some True) [0..<7]"
    by (rule filter_cong) (simp_all add: is_valid_location_def cell_at_wf [OF assms])
  ultimately show ?thesis by simp
qed

theorem get_valid_locations_exact_witness:
  "wf_board create_board \<and>
   (\<exists>cols. get_valid_locations create_board = Some cols
      \<and> set cols = {c. c < COLUMN_COUNT \<and> create_board ! (ROW_COUNT - 1) ! c = EMPTY}
      \<and> sorted_wrt (<) cols
      \<and> cols = filter (\<lambda>c. is_valid_location create_board c = Some True) [0..<COLUMN_COUNT])"
  using get_valid_locations_exact [OF wf_create_board] wf_create_board by simp

subsection \<open>The window score\<close>

lemma count_list_three:
  "a \<noteq> b \<Longrightarrow> a \<noteq> c \<Longrightarrow> b \<noteq> c \<Longrightarrow>
   count_list xs a + count_list xs b + count_list xs c \<le> length xs"
  by (induction xs) auto

text \<open>
  C4. For every window of 4 cells and every piece, \<open>evaluate_window\<close> is the sum of two
  independent terms: the piece's own pattern (100 for four of the piece, else 5 for three
  and one Empty, else 2 for two and two Empty, else 0) and the penalty (\<open>-4\<close> for three
  of the opposing piece and one Empty, else 0). In a window of 4 cells the two patterns
  exclude each other, so the result is one of 100, 5, 2, \<open>-4\<close> and 0.
\<close>

theorem evaluate_window_table:
  assumes "length window = WINDOW_LENGTH"
  shows "evaluate_window window piece =
           (if count_list window piece = 4 then 100
            else if count_list window piece = 3 \<and> count_list window EMPTY = 1 then 5
            else if count_list window piece = 2 \<and> count_list window EMPTY = 2 then 2
            else 0)
         + (if count_list window (opponent piece) = 3 \<and> count_list window EMPTY = 1
            then - 4 else 0)
       \<and> evaluate_window window piece =
           (if count_list window piece = 4 then 100
            else if count_list window piece = 3 \<and> count_list window EMPTY = 1 then 5
            else if count_list window piece = 2 \<and> count_list window EMPTY = 2 then 2
            else if count_list window (opponent piece) = 3 \<and> count_list window EMPTY = 1
            then - 4 else 0)"
proof
  show "evaluate_window window piece =
           (if count_list window piece = 4 then 100
            else if count_list window piece = 3 \<and> count_list window EMPTY = 1 then 5
            else if count_list window piece = 2 \<and> count_list window EMPTY = 2 then 2
            else 0)
         + (if count_list window (opponent piece) = 3 \<and> count_list window EMPTY = 1
            then - 4 else 0)"
    by (cases "piece = PLAYER_PIECE") (simp_all add: evaluate_window_def opponent_def Let_def)
  have opp: "opponent piece \<noteq> piece" "opponent piece \<noteq> EMPTY"
    by (simp_all add: opponent_def)
  have excl: "count_list window piece < 2"
    if "count_list window (opponent piece) = 3" "count_list window EMPTY = 1"
  proof (cases "piece = EMPTY")
    case True
    with that show ?thesis by simp
  next
    case False
    with opp have "count_list window (opponent piece) + count_list window EMPTY
        + count_list window piece \<le> length window"
      by (intro count_list_three) auto
    with that assms show ?thesis by simp
  qed
  show "evaluate_window window piece =
           (if count_list window piece = 4 then 100
            else if count_list window piece = 3 \<and> count_list window EMPTY = 1 then 5
            else if count_list window piece = 2 \<and> count_list window EMPTY = 2 then 2
            else if count_list window (opponent piece) = 3 \<and> count_list window EMPTY = 1
            then - 4 else 0)"
    using excl
    by (cases "piece = PLAYER_PIECE") (auto simp: evaluate_window_def opponent_def Let_def)
qed

theorem evaluate_window_table_witness:
  "length [PLAYER_PIECE, PLAYER_PIECE, EMPTY, PLAYER_PIECE] = WINDOW_LENGTH
   \<and> evaluate_window [PLAYER_PIECE, PLAYER_PIECE, EMPTY, PLAYER_PIECE] AI_PIECE = - 4
   \<and> evaluate_window [PLAYER_PIECE, PLAYER_PIECE, EMPTY, PLAYER_PIECE] PLAYER_PIECE = 5"
  using evaluate_window_table [of "[PLAYER_PIECE, PLAYER_PIECE, EMPTY, PLAYER_PIECE]" AI_PIECE]
    evaluate_window_table [of "[PLAYER_PIECE, PLAYER_PIECE, EMPTY, PLAYER_PIECE]" PLAYER_PIECE]
  by (simp add: opponent_def)

subsection \<open>Gravity\<close>

lemma column_contiguous_iff:
  "column_contiguous b c \<longleftrightarrow> (\<forall>r<6. b ! r ! c \<noteq> EMPTY \<longrightarrow> (\<forall>r'<r. b ! r' ! c \<noteq> EMPTY))"
  by (auto simp: column_contiguous_def list_all_iff)

lemma gravity_iff: "gravity b \<longleftrightarrow> (\<forall>c<7. column_contiguous b c)"
  by (auto simp: gravity_def list_all_iff)

lemma next_open_row_from_wf:
  "wf_board b \<Longrightarrow> col < 7 \<Longrightarrow> \<forall>r \<in> set rs. r < 6 \<Longrightarrow>
   next_open_row_from b col rs = Some (find (\<lambda>r. b ! r ! col = EMPTY) rs)"
  by (induction rs) (simp_all add: cell_at_wf)

lemma get_next_open_row_wf:
  "wf_board b \<Longrightarrow> col < 7 \<Longrightarrow>
   get_next_open_row b col = Some (find (\<lambda>r. b ! r ! col = EMPTY) [0..<6])"
  by (simp add: get_next_open_row_def next_open_row_from_wf)

lemma find_upt_Some:
  "find P [0..<n] = Some r \<longleftrightarrow> r < n \<and> P r \<and> (\<forall>r'<r. \<not> P r')"
  by (auto simp: find_Some_iff)

lemma find_upt_None: "find P [0..<n] = None \<longleftrightarrow> (\<forall>r<n. \<not> P r)"
  by (auto simp: find_None_iff)

lemma is_valid_location_wf:
  assumes "wf_board b"
  shows "is_valid_location b col = Some True \<longleftrightarrow> col < 7 \<and> b ! 5 ! col = EMPTY"
proof (cases "col < 7")
  case True
  with assms show ?thesis
    by (simp add: is_valid_location_def cell_at_wf)
next
  case False
  with assms wf_board_nth [of b 5] show ?thesis
    by (simp add: is_valid_location_def cell_at_def item_def wf_board_def)
qed

lemma wf_board_update:
  "wf_board b \<Longrightarrow> r < 6 \<Longrightarrow> c < 7 \<Longrightarrow> wf_board (b[r := (b ! r)[c := p]])"
  by (auto simp: wf_board_def list_all_length nth_list_update)

lemma nth_board_update:
  "wf_board b \<Longrightarrow> r < 6 \<Longrightarrow> c < 7 \<Longrightarrow> r' < 6 \<Longrightarrow> c' < 7 \<Longrightarrow>
   b[r := (b ! r)[c := p]] ! r' ! c' = (if r' = r \<and> c' = c then p else b ! r' ! c')"
  by (auto simp: nth_list_update wf_board_def list_all_length)

text \<open>
  C7. On a 6 by 7 board that satisfies the gravity invariant, for a column whose top cell
  is Empty, \<open>get_next_open_row\<close> returns the lowest Empty row of the column, and
  \<open>drop_piece\<close> at that row writes the piece there and changes nothing else; afterwards
  the column is again contiguous from row 0 and the whole board satisfies the invariant.
\<close>

theorem drop_keeps_gravity:
  assumes wf: "wf_board b" and g: "gravity b" and v: "is_valid_location b col = Some True"
  shows "\<exists>r b'. get_next_open_row b col = Some (Some r)
           \<and> r < ROW_COUNT \<and> b ! r ! col = EMPTY \<and> (\<forall>r'<r. b ! r' ! col \<noteq> EMPTY)
           \<and> drop_piece b (Some r) col piece = Some b'
           \<and> b' = b[r := (b ! r)[col := piece]]
           \<and> wf_board b' \<and> b' ! r ! col = piece
           \<and> column_contiguous b' col \<and> gravity b'"
proof -
  from wf v have col: "col < 7" and top: "b ! 5 ! col = EMPTY"
    by (simp_all add: is_valid_location_wf)
  from top have "find (\<lambda>r. b ! r ! col = EMPTY) [0..<6] \<noteq> None"
    by (auto simp: find_upt_None intro!: exI [of _ 5])
  then obtain r where f: "find (\<lambda>r. b ! r ! col = EMPTY) [0..<6] = Some r"
    by auto
  then have r: "r < 6" "b ! r ! col = EMPTY" "\<forall>r'<r. b ! r' ! col \<noteq> EMPTY"
    by (simp_all add: find_upt_Some)
  let ?b' = "b[r := (b ! r)[col := piece]]"
  have next_row: "get_next_open_row b col = Some (Some r)"
    using wf col f by (simp add: get_next_open_row_wf)
  have len: "r < length b" "col < length (b ! r)"
    using wf r(1) col by (simp_all add: wf_board_def wf_board_nth)
  have dropped: "drop_piece b (Some r) col piece = Some ?b'"
    using len by (simp add: drop_piece_def)
  have wf': "wf_board ?b'"
    using wf r(1) col by (rule wf_board_update)
  have cell: "?b' ! r' ! c' = (if r' = r \<and> c' = col then piece else b ! r' ! c')"
    if "r' < 6" "c' < 7" for r' c'
    using wf r(1) col that by (rule nth_board_update)
  have above: "b ! r'' ! col = EMPTY" if "r < r''" "r'' < 6" for r''
  proof (rule ccontr)
    assume "b ! r'' ! col \<noteq> EMPTY"
    with g col that have "b ! r ! col \<noteq> EMPTY"
      by (auto simp: gravity_iff column_contiguous_iff)
    with r(2) show False by simp
  qed
  have contiguous: "column_contiguous ?b' c" if c: "c < 7" for c
  proof (cases "c = col")
    case False
    from g c have "column_contiguous b c" by (simp add: gravity_iff)
    with False c show ?thesis
      by (simp add: column_contiguous_iff cell)
  next
    case True
    show ?thesis
      unfolding column_contiguous_iff
    proof (intro allI impI)
      fix r1 r2 assume r1: "r1 < 6" and ne: "?b' ! r1 ! c \<noteq> EMPTY" and r2: "r2 < r1"
      have "r1 \<le> r"
      proof (rule ccontr)
        assume "\<not> r1 \<le> r"
        then have "r < r1" by simp
        with above r1 have "b ! r1 ! col = EMPTY" by simp
        with ne True r1 col \<open>r < r1\<close> show False by (simp add: cell)
      qed
      with r2 have "r2 < r" "r2 < 6" using r(1) by simp_all
      with r(3) True col show "?b' ! r2 ! c \<noteq> EMPTY" by (simp add: cell)
    qed
  qed
  have "gravity ?b'"
    using contiguous by (simp add: gravity_iff)
  moreover have "?b' ! r ! col = piece"
    using r(1) col by (simp add: cell)
  ultimately show ?thesis
    using next_row r dropped wf' contiguous [OF col] by simp
qed

lemma gravity_create_board: "gravity create_board"
  by (simp add: gravity_iff column_contiguous_iff create_board_def)

theorem drop_keeps_gravity_witness:
  "wf_board create_board \<and> gravity create_board \<and> is_valid_location create_board 3 = Some True
   \<and> get_next_open_row create_board 3 = Some (Some 0)
   \<and> (\<exists>b'. drop_piece create_board (Some 0) 3 AI_PIECE = Some b' \<and> b' ! 0 ! 3 = AI_PIECE \<and> gravity b')"
proof -
  have v: "is_valid_location create_board 3 = Some True"
    by (subst is_valid_location_wf [OF wf_create_board]) (simp add: create_board_def)
  from drop_keeps_gravity [OF wf_create_board gravity_create_board v, of AI_PIECE]
  obtain r b' where *: "get_next_open_row create_board 3 = Some (Some r)"
      "\<forall>r'<r. create_board ! r' ! 3 \<noteq> EMPTY"
      "drop_piece create_board (Some r) 3 AI_PIECE = Some b'" "b' ! r ! 3 = AI_PIECE" "gravity b'"
    by blast
  have "r = 0"
  proof (rule ccontr)
    assume "r \<noteq> 0"
    then have "0 < r" by simp
    with *(2) have "create_board ! 0 ! 3 \<noteq> EMPTY" by blast
    then show False by (simp add: create_board_def)
  qed
  with * v wf_create_board gravity_create_board show ?thesis by auto
qed

subsection \<open>Win detection on well-formed boards\<close>

lemma and_then_Some [simp]: "and_then (Some a) (Some b) = Some (a \<and> b)"
  by (simp add: and_then_def)

lemma or_else_Some [simp]: "or_else (Some a) (Some b) = Some (a \<or> b)"
  by (simp add: or_else_def)

lemma return_if_any_Some:
  "(\<And>x. x \<in> set xs \<Longrightarrow> cond x = Some (P x)) \<Longrightarrow> return_if_any xs cond = Some (list_ex P xs)"
  by (induction xs) simp_all

lemma cell_is_wf: "wf_board b \<Longrightarrow> r < 6 \<Longrightarrow> c < 7 \<Longrightarrow> cell_is b r c p = Some (b ! r ! c = p)"
  by (simp add: cell_is_def cell_at_wf)

lemma winning_move_wf:
  assumes "wf_board b"
  shows "winning_move b p = Some (four_in_a_row b p)"
proof -
  note cw = cell_is_wf [OF assms]
  have h: "return_if_any [0..<7 - 3] (\<lambda>c. return_if_any [0..<6] (\<lambda>r.
          and_then (cell_is b r c p) (and_then (cell_is b r (c + 1) p)
         (and_then (cell_is b r (c + 2) p) (cell_is b r (c + 3) p)))))
       = Some (list_ex (\<lambda>c. list_ex (\<lambda>r.
        b ! r ! c = p \<and> b ! r ! (c + 1) = p \<and> b ! r ! (c + 2) = p \<and> b ! r ! (c + 3) = p) [0..<6]) [0..<4])"
    by (simp, intro return_if_any_Some) (simp add: cw)
  have v: "return_if_any [0..<7] (\<lambda>c. return_if_any [0..<6 - 3] (\<lambda>r.
          and_then (cell_is b r c p) (and_then (cell_is b (r + 1) c p)
         (and_then (cell_is b (r + 2) c p) (cell_is b (r + 3) c p)))))
       = Some (list_ex (\<lambda>c. list_ex (\<lambda>r.
        b ! r ! c = p \<and> b ! (r + 1) ! c = p \<and> b ! (r + 2) ! c = p \<and> b ! (r + 3) ! c = p) [0..<3]) [0..<7])"
    by (simp, intro return_if_any_Some) (simp add: cw)
  have d1: "return_if_any [0..<7 - 3] (\<lambda>c. return_if_any [0..<6 - 3] (\<lambda>r.
          and_then (cell_is b r c p) (and_then (cell_is b (r + 1) (c + 1) p)
         (and_then (cell_is b (r + 2) (c + 2) p) (cell_is b (r + 3) (c + 3) p)))))
       = Some (list_ex (\<lambda>c. list_ex (\<lambda>r.
        b ! r ! c = p \<and> b ! (r + 1) ! (c + 1) = p \<and> b ! (r + 2) ! (c + 2) = p
        \<and> b ! (r + 3) ! (c + 3) = p) [0..<3]) [0..<4])"
    by (simp, intro return_if_any_Some) (simp add: cw)
  have d2: "return_if_any [0..<7 - 3] (\<lambda>c. return_if_any [3..<6] (\<lambda>r.
          and_then (cell_is b r c p) (and_then (cell_is b (r - 1) (c + 1) p)
         (and_then (cell_is b (r - 2) (c + 2) p) (cell_is b (r - 3) (c + 3) p)))))
       = Some (list_ex (\<lambda>c. list_ex (\<lambda>r.
        b ! r ! c = p \<and> b ! (r - 1) ! (c + 1) = p \<and> b ! (r - 2) ! (c + 2) = p
        \<and> b ! (r - 3) ! (c + 3) = p) [3..<6]) [0..<4])"
    by (simp, intro return_if_any_Some) (simp add: cw)
  show ?thesis
    unfolding winning_move_def four_in_a_row_def h v d1 d2 by simp
qed

lemma rotate180_rotate180: "rotate180 (rotate180 b) = b"
  by (simp add: rotate180_def rev_map)

lemma wf_rotate180: "wf_board b \<Longrightarrow> wf_board (rotate180 b)"
  by (simp add: wf_board_def rotate180_def list_all_iff)

lemma nth_rotate180:
  assumes "wf_board b" "r < 6" "c < 7"
  shows "rotate180 b ! r ! c = b ! (5 - r) ! (6 - c)"
proof -
  have "rotate180 b ! r = rev (b ! (5 - r))"
    using assms by (simp add: rotate180_def wf_board_def rev_nth)
  moreover have "length (b ! (5 - r)) = 7"
    using assms by (simp add: wf_board_nth)
  ultimately show ?thesis
    using assms by (simp add: rev_nth)
qed

lemma four_in_a_row_iff:
  "four_in_a_row b p \<longleftrightarrow>
     (\<exists>c<4. \<exists>r<6. b ! r ! c = p \<and> b ! r ! (c + 1) = p \<and> b ! r ! (c + 2) = p \<and> b ! r ! (c + 3) = p)
   \<or> (\<exists>c<7. \<exists>r<3. b ! r ! c = p \<and> b ! (r + 1) ! c = p \<and> b ! (r + 2) ! c = p \<and> b ! (r + 3) ! c = p)
   \<or> (\<exists>c<4. \<exists>r<3. b ! r ! c = p \<and> b ! (r + 1) ! (c + 1) = p \<and> b ! (r + 2) ! (c + 2) = p
         \<and> b ! (r + 3) ! (c + 3) = p)
   \<or> (\<exists>c<4. \<exists>r<3. b ! (r + 3) ! c = p \<and> b ! (r + 2) ! (c + 1) = p \<and> b ! (r + 1) ! (c + 2) = p
         \<and> b ! r ! (c + 3) = p)"
proof -
  have neg: "(\<exists>r\<in>{3..<6::nat}. Q r) \<longleftrightarrow> (\<exists>r<3. Q (r + 3))" for Q
  proof
    assume "\<exists>r\<in>{3..<6}. Q r"
    then obtain r where "3 \<le> r" "r < 6" "Q r" by auto
    then have "r - 3 < 3" "Q ((r - 3) + 3)" by simp_all
    then show "\<exists>r<3. Q (r + 3)" by blast
  next
    assume "\<exists>r<3. Q (r + 3)"
    then obtain r where "r < 3" "Q (r + 3)" by blast
    then have "r + 3 \<in> {3..<6}" by simp
    with \<open>Q (r + 3)\<close> show "\<exists>r\<in>{3..<6}. Q r" by blast
  qed
  have lt: "(\<exists>x\<in>{0..<n::nat}. Q x) \<longleftrightarrow> (\<exists>x<n. Q x)" for n Q
    by auto
  show ?thesis
    unfolding four_in_a_row_def list_ex_iff set_upt neg lt
    by (simp add: numeral_3_eq_3 numeral_2_eq_2)
qed

lemma four_in_a_row_rotate180_imp:
  assumes wf: "wf_board b" and win: "four_in_a_row b p"
  shows "four_in_a_row (rotate180 b) p"
proof -
  note nr = nth_rotate180 [OF wf]
  from win consider
      (h) c r where "c < 4" "r < 6" "b ! r ! c = p" "b ! r ! (c + 1) = p" "b ! r ! (c + 2) = p"
        "b ! r ! (c + 3) = p"
    | (v) c r where "c < 7" "r < 3" "b ! r ! c = p" "b ! (r + 1) ! c = p" "b ! (r + 2) ! c = p"
        "b ! (r + 3) ! c = p"
    | (d1) c r where "c < 4" "r < 3" "b ! r ! c = p" "b ! (r + 1) ! (c + 1) = p"
        "b ! (r + 2) ! (c + 2) = p" "b ! (r + 3) ! (c + 3) = p"
    | (d2) c r where "c < 4" "r < 3" "b ! (r + 3) ! c = p" "b ! (r + 2) ! (c + 1) = p"
        "b ! (r + 1) ! (c + 2) = p" "b ! r ! (c + 3) = p"
    unfolding four_in_a_row_iff by blast
  then show ?thesis
  proof cases
    case h
    let ?c = "3 - c" and ?r = "5 - r"
    have idx: "5 - ?r = r" "6 - ?c = c + 3" "6 - (?c + 1) = c + 2" "6 - (?c + 2) = c + 1"
      "6 - (?c + 3) = c" "?c < 4" "?r < 6"
      using h(1,2) by simp_all
    have "rotate180 b ! ?r ! ?c = p" "rotate180 b ! ?r ! (?c + 1) = p"
      "rotate180 b ! ?r ! (?c + 2) = p" "rotate180 b ! ?r ! (?c + 3) = p"
      using h idx by (simp_all add: nr ac_simps)
    with idx(6,7) show ?thesis
      unfolding four_in_a_row_iff by blast
  next
    case v
    let ?c = "6 - c" and ?r = "2 - r"
    have idx: "6 - ?c = c" "5 - ?r = r + 3" "5 - (?r + 1) = r + 2" "5 - (?r + 2) = r + 1"
      "5 - (?r + 3) = r" "?c < 7" "?r < 3"
      using v(1,2) by simp_all
    have "rotate180 b ! ?r ! ?c = p" "rotate180 b ! (?r + 1) ! ?c = p"
      "rotate180 b ! (?r + 2) ! ?c = p" "rotate180 b ! (?r + 3) ! ?c = p"
      using v idx by (simp_all add: nr ac_simps)
    with idx(6,7) show ?thesis
      unfolding four_in_a_row_iff by blast
  next
    case d1
    let ?c = "3 - c" and ?r = "2 - r"
    have idx: "6 - ?c = c + 3" "6 - (?c + 1) = c + 2" "6 - (?c + 2) = c + 1" "6 - (?c + 3) = c"
      "5 - ?r = r + 3" "5 - (?r + 1) = r + 2" "5 - (?r + 2) = r + 1" "5 - (?r + 3) = r"
      "?c < 4" "?r < 3"
      using d1(1,2) by simp_all
    have "rotate180 b ! ?r ! ?c = p" "rotate180 b ! (?r + 1) ! (?c + 1) = p"
      "rotate180 b ! (?r + 2) ! (?c + 2) = p" "rotate180 b ! (?r + 3) ! (?c + 3) = p"
      using d1 idx by (simp_all add: nr ac_simps)
    with idx(9,10) show ?thesis
      unfolding four_in_a_row_iff by blast
  next
    case d2
    let ?c = "3 - c" and ?r = "2 - r"
    have idx: "6 - ?c = c + 3" "6 - (?c + 1) = c + 2" "6 - (?c + 2) = c + 1" "6 - (?c + 3) = c"
      "5 - ?r = r + 3" "5 - (?r + 1) = r + 2" "5 - (?r + 2) = r + 1" "5 - (?r + 3) = r"
      "?c < 4" "?r < 3"
      using d2(1,2) by simp_all
    have "rotate180 b ! (?r + 3) ! ?c = p" "rotate180 b ! (?r + 2) ! (?c + 1) = p"
      "rotate180 b ! (?r + 1) ! (?c + 2) = p" "rotate180 b ! ?r ! (?c + 3) = p"
      using d2 idx by (simp_all add: nr ac_simps)
    with idx(9,10) show ?thesis
      unfolding four_in_a_row_iff by blast
  qed
qed

lemma four_in_a_row_rotate180:
  assumes "wf_board b"
  shows "four_in_a_row (rotate180 b) p = four_in_a_row b p"
proof
  assume "four_in_a_row (rotate180 b) p"
  with wf_rotate180 [OF assms] have "four_in_a_row (rotate180 (rotate180 b)) p"
    by (rule four_in_a_row_rotate180_imp)
  then show "four_in_a_row b p" by (simp add: rotate180_rotate180)
next
  assume "four_in_a_row b p"
  with assms show "four_in_a_row (rotate180 b) p"
    by (rule four_in_a_row_rotate180_imp)
qed

lemma wf_example_ai_row: "wf_board example_ai_row"
  by (simp add: wf_board_def example_ai_row_def)

text \<open>
  C9. On every 6 by 7 board and for every piece, \<open>winning_move\<close> gives the same answer on
  the board and on the board rotated by 180 degrees; the answer is whether the piece has
  four in a row.
\<close>

theorem winning_move_rotate180:
  assumes "wf_board b"
  shows "winning_move (rotate180 b) piece = winning_move b piece
         \<and> winning_move b piece = Some (four_in_a_row b piece)"
  using assms by (simp add: winning_move_wf wf_rotate180 four_in_a_row_rotate180)

theorem winning_move_rotate180_witness:
  "wf_board example_ai_row
   \<and> winning_move (rotate180 example_ai_row) AI_PIECE = winning_move example_ai_row AI_PIECE
   \<and> winning_move example_ai_row AI_PIECE = Some True"
proof -
  have "four_in_a_row example_ai_row AI_PIECE"
    by code_simp
  with winning_move_rotate180 [OF wf_example_ai_row, of AI_PIECE] wf_example_ai_row
  show ?thesis by simp
qed

subsection \<open>The position score\<close>

lemma for_each_sum:
  "(\<And>x s. x \<in> set xs \<Longrightarrow> body x s = Some (s + g x)) \<Longrightarrow>
   for_each xs s body = Some (s + sum_list (map g xs))"
  by (induction xs arbitrary: s) (simp_all add: add.assoc)

lemma sum_list_concat_map:
  "sum_list (map f (concat xss)) = (\<Sum>xs\<leftarrow>xss. sum_list (map f xs))"
  by (induction xss) simp_all

lemma comprehension_Some:
  "(\<And>x. x \<in> set xs \<Longrightarrow> f x = Some (g x)) \<Longrightarrow> comprehension f xs = Some (map g xs)"
  by (induction xs) simp_all

lemma slice_four:
  assumes "c + 4 \<le> length xs"
  shows "slice xs c (c + 4) = map (\<lambda>i. xs ! (c + i)) [0..<4]"
  using assms by (intro nth_equalityI) (simp_all add: slice_def)

lemma wf_board_row: "wf_board b \<Longrightarrow> row \<in> set b \<Longrightarrow> length row = 7"
  by (simp add: wf_board_def list_all_iff)

lemma item_wf: "wf_board b \<Longrightarrow> r < 6 \<Longrightarrow> item b r = Some (b ! r)"
  by (simp add: item_def wf_board_def)

lemma score_position_wf:
  assumes wf: "wf_board b"
  shows "score_position b piece = Some (3 * int (center_count b piece) + window_sum b piece)"
proof -
  have center: "comprehension (\<lambda>i. item i (7 div 2)) b = Some (map (\<lambda>row. row ! 3) b)"
    by (rule comprehension_Some) (simp add: item_def wf_board_row [OF wf])
  have hor: "for_each [0..<6] s (\<lambda>r score.
            do { row_array \<leftarrow> item b r;
                 for_each [0..<7 - 3] score (\<lambda>c score.
                   Some (score + evaluate_window (slice row_array c (c + 4)) piece)) })
      = Some (s + (\<Sum>r\<leftarrow>[0..<6]. \<Sum>c\<leftarrow>[0..<4]. evaluate_window (map (\<lambda>i. b ! r ! (c + i)) [0..<4]) piece))" for s
  proof (rule for_each_sum)
    fix r s assume "r \<in> set [0..<6]"
    then have r: "r < 6" by simp
    have "for_each [0..<7 - 3] s (\<lambda>c score.
                   Some (score + evaluate_window (slice (b ! r) c (c + 4)) piece))
        = Some (s + (\<Sum>c\<leftarrow>[0..<4]. evaluate_window (map (\<lambda>i. b ! r ! (c + i)) [0..<4]) piece))"
      by (simp, rule for_each_sum) (simp add: slice_four wf_board_nth [OF wf r])
    with r show "do { row_array \<leftarrow> item b r;
                 for_each [0..<7 - 3] s (\<lambda>c score.
                   Some (score + evaluate_window (slice row_array c (c + 4)) piece)) }
        = Some (s + (\<Sum>c\<leftarrow>[0..<4]. evaluate_window (map (\<lambda>i. b ! r ! (c + i)) [0..<4]) piece))"
      by (simp add: item_wf [OF wf])
  qed
  have ver: "for_each [0..<7] s (\<lambda>c score.
            do { col_array \<leftarrow> comprehension (\<lambda>row. item row c) b;
                 for_each [0..<6 - 3] score (\<lambda>r score.
                   Some (score + evaluate_window (slice col_array r (r + 4)) piece)) })
      = Some (s + (\<Sum>c\<leftarrow>[0..<7]. \<Sum>r\<leftarrow>[0..<3]. evaluate_window (map (\<lambda>i. b ! (r + i) ! c) [0..<4]) piece))" for s
  proof (rule for_each_sum)
    fix c s assume "c \<in> set [0..<7]"
    then have c: "c < 7" by simp
    have col: "comprehension (\<lambda>row. item row c) b = Some (map (\<lambda>row. row ! c) b)"
      by (rule comprehension_Some) (simp add: item_def wf_board_row [OF wf] c)
    have len: "length b = 6" using wf by (simp add: wf_board_def)
    have win: "map (\<lambda>i. map (\<lambda>row. row ! c) b ! (r + i)) [0..<4] = map (\<lambda>i. b ! (r + i) ! c) [0..<4]"
      if "r < 3" for r
      using that len by (intro map_cong) simp_all
    have "for_each [0..<6 - 3] s (\<lambda>r score.
                   Some (score + evaluate_window (slice (map (\<lambda>row. row ! c) b) r (r + 4)) piece))
        = Some (s + (\<Sum>r\<leftarrow>[0..<3]. evaluate_window (map (\<lambda>i. b ! (r + i) ! c) [0..<4]) piece))"
      by (simp, rule for_each_sum) (simp add: slice_four len win)
    with col show "do { col_array \<leftarrow> comprehension (\<lambda>row. item row c) b;
                 for_each [0..<6 - 3] s (\<lambda>r score.
                   Some (score + evaluate_window (slice col_array r (r + 4)) piece)) }
        = Some (s + (\<Sum>r\<leftarrow>[0..<3]. evaluate_window (map (\<lambda>i. b ! (r + i) ! c) [0..<4]) piece))"
      by simp
  qed
  have pos: "for_each [0..<6 - 3] s (\<lambda>r score.
            for_each [0..<7 - 3] score (\<lambda>c score.
              do { window \<leftarrow> comprehension (\<lambda>i. cell_at b (r + i) (c + i)) [0..<4];
                   Some (score + evaluate_window window piece) }))
      = Some (s + (\<Sum>r\<leftarrow>[0..<6 - 3]. \<Sum>c\<leftarrow>[0..<4]. evaluate_window (map (\<lambda>i. b ! (r + i) ! (c + i)) [0..<4]) piece))" for s
  proof (rule for_each_sum)
    fix r s assume "r \<in> set [0..<6 - 3]"
    then have r: "r < 3" by simp
    show "for_each [0..<7 - 3] s (\<lambda>c score.
              do { window \<leftarrow> comprehension (\<lambda>i. cell_at b (r + i) (c + i)) [0..<4];
                   Some (score + evaluate_window window piece) })
        = Some (s + (\<Sum>c\<leftarrow>[0..<4]. evaluate_window (map (\<lambda>i. b ! (r + i) ! (c + i)) [0..<4]) piece))"
    proof (simp, rule for_each_sum)
      fix c s assume "c \<in> set [0..<4]"
      then have c: "c < 4" by simp
      have "comprehension (\<lambda>i. cell_at b (r + i) (c + i)) [0..<4]
          = Some (map (\<lambda>i. b ! (r + i) ! (c + i)) [0..<4])"
        by (rule comprehension_Some) (use r c in \<open>simp add: cell_at_wf [OF wf]\<close>)
      then show "do { window \<leftarrow> comprehension (\<lambda>i. cell_at b (r + i) (c + i)) [0..<4];
                   Some (s + evaluate_window window piece) }
          = Some (s + evaluate_window (map (\<lambda>i. b ! (r + i) ! (c + i)) [0..<4]) piece)"
        by simp
    qed
  qed
  have neg: "for_each [0..<6 - 3] s (\<lambda>r score.
            for_each [0..<7 - 3] score (\<lambda>c score.
              do { window \<leftarrow> comprehension (\<lambda>i. cell_at b (r + 3 - i) (c + i)) [0..<4];
                   Some (score + evaluate_window window piece) }))
      = Some (s + (\<Sum>r\<leftarrow>[0..<6 - 3]. \<Sum>c\<leftarrow>[0..<4]. evaluate_window (map (\<lambda>i. b ! (r + 3 - i) ! (c + i)) [0..<4]) piece))" for s
  proof (rule for_each_sum)
    fix r s assume "r \<in> set [0..<6 - 3]"
    then have r: "r < 3" by simp
    show "for_each [0..<7 - 3] s (\<lambda>c score.
              do { window \<leftarrow> comprehension (\<lambda>i. cell_at b (r + 3 - i) (c + i)) [0..<4];
                   Some (score + evaluate_window window piece) })
        = Some (s + (\<Sum>c\<leftarrow>[0..<4]. evaluate_window (map (\<lambda>i. b ! (r + 3 - i) ! (c + i)) [0..<4]) piece))"
    proof (simp, rule for_each_sum)
      fix c s assume "c \<in> set [0..<4]"
      then have c: "c < 4" by simp
      have "comprehension (\<lambda>i. cell_at b (r + 3 - i) (c + i)) [0..<4]
          = Some (map (\<lambda>i. b ! (r + 3 - i) ! (c + i)) [0..<4])"
        by (rule comprehension_Some) (use r c in \<open>simp add: cell_at_wf [OF wf]\<close>)
      then show "do { window \<leftarrow> comprehension (\<lambda>i. cell_at b (r + 3 - i) (c + i)) [0..<4];
                   Some (s + evaluate_window window piece) }
          = Some (s + evaluate_window (map (\<lambda>i. b ! (r + 3 - i) ! (c + i)) [0..<4]) piece)"
        by simp
    qed
  qed
  have sums: "window_sum b piece =
      (\<Sum>r\<leftarrow>[0..<6]. \<Sum>c\<leftarrow>[0..<4]. evaluate_window (map (\<lambda>i. b ! r ! (c + i)) [0..<4]) piece)
    + (\<Sum>c\<leftarrow>[0..<7]. \<Sum>r\<leftarrow>[0..<3]. evaluate_window (map (\<lambda>i. b ! (r + i) ! c) [0..<4]) piece)
    + (\<Sum>r\<leftarrow>[0..<3]. \<Sum>c\<leftarrow>[0..<4]. evaluate_window (map (\<lambda>i. b ! (r + i) ! (c + i)) [0..<4]) piece)
    + (\<Sum>r\<leftarrow>[0..<3]. \<Sum>c\<leftarrow>[0..<4]. evaluate_window (map (\<lambda>i. b ! (r + 3 - i) ! (c + i)) [0..<4]) piece)"
    unfolding window_sum_def all_windows_def
    by (simp only: map_append sum_list_append sum_list_concat_map map_map comp_def)
  show ?thesis
    unfolding score_position_def
    by (simp only: center hor ver pos neg Let_def bind.bind_lunit)
      (simp add: sums center_count_def)
qed

text \<open>
  C5. On every 6 by 7 board and for every piece, \<open>score_position\<close> returns the sum of
  \<open>evaluate_window\<close> over the 69 windows of the board plus 3 times the number of cells of
  column 3 that hold the piece; the centre bonus is added once.
\<close>

theorem score_position_sum:
  assumes "wf_board b"
  shows "score_position b piece =
           Some ((\<Sum>w\<leftarrow>all_windows b. evaluate_window w piece) + 3 * int (center_count b piece))
         \<and> length (all_windows b) = 69
         \<and> list_all (\<lambda>w. length w = WINDOW_LENGTH) (all_windows b)"
proof -
  have "length (all_windows b) = 69"
    by (simp add: all_windows_def length_concat comp_def sum_list_triv)
  moreover have "list_all (\<lambda>w. length w = 4) (all_windows b)"
    by (auto simp: all_windows_def list_all_iff)
  ultimately show ?thesis
    using score_position_wf [OF assms, of piece] by (simp add: window_sum_def)
qed

theorem score_position_sum_witness:
  "wf_board example_ai_row \<and> score_position example_ai_row AI_PIECE = Some 103
   \<and> (\<Sum>w\<leftarrow>all_windows example_ai_row. evaluate_window w AI_PIECE) = 100
   \<and> center_count example_ai_row AI_PIECE = 1"
proof -
  have "(\<Sum>w\<leftarrow>all_windows example_ai_row. evaluate_window w AI_PIECE) = 100"
    by code_simp
  moreover have "center_count example_ai_row AI_PIECE = 1"
    by code_simp
  ultimately show ?thesis
    using score_position_sum [OF wf_example_ai_row, of AI_PIECE] wf_example_ai_row by simp
qed

subsection \<open>Minimax on well-formed boards\<close>

lemma is_terminal_node_wf:
  assumes "wf_board b"
  shows "is_terminal_node b = Some (terminal b)"
  using assms
  by (simp add: is_terminal_node_def winning_move_wf get_valid_locations_wf terminal_def)

lemma drop_valid:
  assumes wf: "wf_board b" and col: "col < 7" and top: "b ! 5 ! col = EMPTY"
  shows "\<exists>r b'. get_next_open_row b col = Some (Some r)
           \<and> drop_piece b (Some r) col p = Some b' \<and> wf_board b'"
proof -
  from top have "find (\<lambda>r. b ! r ! col = EMPTY) [0..<6] \<noteq> None"
    by (auto simp: find_upt_None intro!: exI [of _ 5])
  then obtain r where f: "find (\<lambda>r. b ! r ! col = EMPTY) [0..<6] = Some r"
    by auto
  then have r: "r < 6" by (simp add: find_upt_Some)
  have "get_next_open_row b col = Some (Some r)"
    using wf col f by (simp add: get_next_open_row_wf)
  moreover have "drop_piece b (Some r) col p = Some (b[r := (b ! r)[col := p]])"
    using wf r col by (simp add: drop_piece_def wf_board_nth) (simp add: wf_board_def)
  moreover have "wf_board (b[r := (b ! r)[col := p]])"
    using wf r col by (rule wf_board_update)
  ultimately show ?thesis by blast
qed

lemma maximize_unfold:
  assumes "get_next_open_row b col = Some row" "drop_piece b row col AI_PIECE = Some b'"
    and "minimax g b' (d - 1) False = Some ((c0, s), g1)"
  shows "maximize g b d (col # cols) val column =
           (if score_less val s then maximize g1 b d cols s col
            else maximize g1 b d cols val column)"
  using assms by simp

lemma minimize_unfold:
  assumes "get_next_open_row b col = Some row" "drop_piece b row col PLAYER_PIECE = Some b'"
    and "minimax g b' (d - 1) True = Some ((c0, s), g1)"
  shows "minimize g b d (col # cols) val column =
           (if score_less s val then minimize g1 b d cols s col
            else minimize g1 b d cols val column)"
  using assms by simp

lemma random_choice_Some:
  "xs \<noteq> [] \<Longrightarrow> \<exists>x g'. random_choice g xs = Some (x, g') \<and> x \<in> set xs"
  by (simp add: random_choice_def)

lemma minimax_base:
  assumes wf: "wf_board b" and base: "d = 0 \<or> terminal b"
  shows "minimax g b d m =
     Some ((None, IntVal
       (if terminal b then
          if four_in_a_row b AI_PIECE then 100000000000000
          else if four_in_a_row b PLAYER_PIECE then - 10000000000000 else 0
        else 3 * int (center_count b AI_PIECE) + window_sum b AI_PIECE)), g)"
  using base
  by (subst minimax.simps)
    (simp add: get_valid_locations_wf [OF wf] is_terminal_node_wf [OF wf] winning_move_wf [OF wf]
      score_position_wf [OF wf])

lemma minimax_step:
  assumes wf: "wf_board b" and step: "d \<noteq> 0" "\<not> terminal b"
  shows "minimax g b d m =
     (if m then
        do { (column, g) \<leftarrow> random_choice g (filter (\<lambda>c. b ! 5 ! c = EMPTY) [0..<7]);
             ((column, val), g) \<leftarrow>
               maximize g b d (filter (\<lambda>c. b ! 5 ! c = EMPTY) [0..<7]) MinusInf column;
             Some ((Some column, val), g) }
      else
        do { (column, g) \<leftarrow> random_choice g (filter (\<lambda>c. b ! 5 ! c = EMPTY) [0..<7]);
             ((column, val), g) \<leftarrow>
               minimize g b d (filter (\<lambda>c. b ! 5 ! c = EMPTY) [0..<7]) PlusInf column;
             Some ((Some column, val), g) })"
  using step
  by (subst minimax.simps)
    (simp add: get_valid_locations_wf [OF wf] is_terminal_node_wf [OF wf])

lemma valid_cols_Cons [simp]:
  "valid_cols b (c # cols) \<longleftrightarrow> c < 7 \<and> b ! 5 ! c = EMPTY \<and> valid_cols b cols"
  by (simp add: valid_cols_def)

lemma valid_cols_filter: "valid_cols b (filter (\<lambda>c. b ! 5 ! c = EMPTY) [0..<7])"
  by (simp add: valid_cols_def list_all_iff)

lemma returnsI: "(\<And>g. \<exists>g'. call g = Some (r, g')) \<Longrightarrow> returns call r"
  by (simp add: returns_def)

lemma returnsD: "returns call r \<Longrightarrow> \<exists>g'. call g = Some (r, g')"
  by (simp add: returns_def)

text \<open>
  The search returns on every 6 by 7 board, for every depth and both flags, and what it
  returns does not depend on the random generator: the first column visited always
  replaces the randomly chosen one, since every score is an integer and the loops start
  from an infinite value.
\<close>

lemma minimax_returns_aux:
  shows "wf_board b \<Longrightarrow>
         \<exists>col i. returns (\<lambda>g. minimax g b d m) (col, IntVal i)
           \<and> (col = None \<longleftrightarrow> d = 0 \<or> terminal b)
           \<and> (case col of None \<Rightarrow> True | Some c \<Rightarrow> c < 7 \<and> b ! 5 ! c = EMPTY)"
    and "wf_board b \<Longrightarrow> valid_cols b cols \<Longrightarrow>
         \<exists>col' v'. returns (\<lambda>g. maximize g b d cols val column) (col', v')
           \<and> (col' = column \<or> col' \<in> set cols)
           \<and> (v' = val \<or> (\<exists>i. v' = IntVal i))
           \<and> (val = MinusInf \<and> cols \<noteq> [] \<longrightarrow>
                col' \<in> set cols \<and> (\<exists>i. v' = IntVal i)
                \<and> (\<forall>column2. returns (\<lambda>g. maximize g b d cols val column2) (col', v')))"
    and "wf_board b \<Longrightarrow> valid_cols b cols \<Longrightarrow>
         \<exists>col' v'. returns (\<lambda>g. minimize g b d cols val column) (col', v')
           \<and> (col' = column \<or> col' \<in> set cols)
           \<and> (v' = val \<or> (\<exists>i. v' = IntVal i))
           \<and> (val = PlusInf \<and> cols \<noteq> [] \<longrightarrow>
                col' \<in> set cols \<and> (\<exists>i. v' = IntVal i)
                \<and> (\<forall>column2. returns (\<lambda>g. minimize g b d cols val column2) (col', v')))"
proof (induction "g :: rng" b d m and "g :: rng" b d cols val column
    and "g :: rng" b d cols val column rule: minimax_maximize_minimize.induct)
  case (1 g board depth maximizingPlayer)
  note wf = \<open>wf_board board\<close>
  let ?vl = "filter (\<lambda>c. board ! 5 ! c = EMPTY) [0..<7]"
  show ?case
  proof (cases "depth = 0 \<or> terminal board")
    case True
    then show ?thesis
      by (intro exI [of _ None] exI conjI returnsI) (simp_all add: minimax_base [OF wf])
  next
    case False
    then have step: "depth \<noteq> 0" "\<not> terminal board" by simp_all
    from step(2) have ne: "?vl \<noteq> []" by (simp add: terminal_def)
    from random_choice_Some [OF ne] obtain x0 g0 where rc: "random_choice g ?vl = Some (x0, g0)"
      by blast
    show ?thesis
    proof (cases maximizingPlayer)
      case True
      have "\<exists>col' v'. returns (\<lambda>g. maximize g board depth ?vl MinusInf x0) (col', v')
           \<and> (col' = x0 \<or> col' \<in> set ?vl)
           \<and> (v' = MinusInf \<or> (\<exists>i. v' = IntVal i))
           \<and> (MinusInf = MinusInf \<and> ?vl \<noteq> [] \<longrightarrow>
                col' \<in> set ?vl \<and> (\<exists>i. v' = IntVal i)
                \<and> (\<forall>column2. returns (\<lambda>g. maximize g board depth ?vl MinusInf column2) (col', v')))"
        using step True rc wf
        by (intro "1.IH"(1) [of ?vl "terminal board" "(x0, g0)" x0 g0])
          (simp_all add: get_valid_locations_wf is_terminal_node_wf valid_cols_filter)
      with ne obtain col' i where col': "col' \<in> set ?vl"
        and ret: "\<And>column2. returns (\<lambda>g. maximize g board depth ?vl MinusInf column2) (col', IntVal i)"
        by auto
      have "returns (\<lambda>g. minimax g board depth maximizingPlayer) (Some col', IntVal i)"
      proof (rule returnsI)
        fix g2
        from random_choice_Some [OF ne] obtain x2 g2' where "random_choice g2 ?vl = Some (x2, g2')"
          by blast
        moreover from returnsD [OF ret [of x2], of g2'] obtain g2''
          where "maximize g2' board depth ?vl MinusInf x2 = Some ((col', IntVal i), g2'')"
          by blast
        ultimately show "\<exists>g'. minimax g2 board depth maximizingPlayer = Some ((Some col', IntVal i), g')"
          using True by (simp add: minimax_step [OF wf step])
      qed
      with col' step show ?thesis
        by (intro exI [of _ "Some col'"] exI [of _ i]) simp
    next
      case False
      have "\<exists>col' v'. returns (\<lambda>g. minimize g board depth ?vl PlusInf x0) (col', v')
           \<and> (col' = x0 \<or> col' \<in> set ?vl)
           \<and> (v' = PlusInf \<or> (\<exists>i. v' = IntVal i))
           \<and> (PlusInf = PlusInf \<and> ?vl \<noteq> [] \<longrightarrow>
                col' \<in> set ?vl \<and> (\<exists>i. v' = IntVal i)
                \<and> (\<forall>column2. returns (\<lambda>g. minimize g board depth ?vl PlusInf column2) (col', v')))"
        using step False rc wf
        by (intro "1.IH"(2) [of ?vl "terminal board" "(x0, g0)" x0 g0])
          (simp_all add: get_valid_locations_wf is_terminal_node_wf valid_cols_filter)
      with ne obtain col' i where col': "col' \<in> set ?vl"
        and ret: "\<And>column2. returns (\<lambda>g. minimize g board depth ?vl PlusInf column2) (col', IntVal i)"
        by auto
      have "returns (\<lambda>g. minimax g board depth maximizingPlayer) (Some col', IntVal i)"
      proof (rule returnsI)
        fix g2
        from random_choice_Some [OF ne] obtain x2 g2' where "random_choice g2 ?vl = Some (x2, g2')"
          by blast
        moreover from returnsD [OF ret [of x2], of g2'] obtain g2''
          where "minimize g2' board depth ?vl PlusInf x2 = Some ((col', IntVal i), g2'')"
          by blast
        ultimately show "\<exists>g'. minimax g2 board depth maximizingPlayer = Some ((Some col', IntVal i), g')"
          using False by (simp add: minimax_step [OF wf step])
      qed
      with col' step show ?thesis
        by (intro exI [of _ "Some col'"] exI [of _ i]) simp
    qed
  qed
next
  case (2 g board depth val column)
  show ?case
    by (intro exI [of _ column] exI [of _ val]) (simp add: returns_def)
next
  case (3 g board depth col cols val column)
  note wf = \<open>wf_board board\<close>
  from \<open>valid_cols board (col # cols)\<close>
  have col: "col < 7" "board ! 5 ! col = EMPTY" and cols: "valid_cols board cols"
    by simp_all
  from drop_valid [OF wf col, of AI_PIECE] obtain r b'
    where row: "get_next_open_row board col = Some (Some r)"
      and drop: "drop_piece board (Some r) col AI_PIECE = Some b'" and wf': "wf_board b'"
    by blast
  from "3.IH"(1) [OF row drop wf'] obtain c0 i
    where rec: "returns (\<lambda>g. minimax g b' (depth - 1) False) (c0, IntVal i)"
    by blast
  from returnsD [OF rec, of g] obtain g1
    where call: "minimax g b' (depth - 1) False = Some ((c0, IntVal i), g1)"
    by blast
  define val1 where "val1 = (if score_less val (IntVal i) then IntVal i else val)"
  define col1 where "col1 = (if score_less val (IntVal i) then col else column)"
  have tail: "\<exists>col' v'. returns (\<lambda>g. maximize g board depth cols val1 col1) (col', v')
           \<and> (col' = col1 \<or> col' \<in> set cols)
           \<and> (v' = val1 \<or> (\<exists>i. v' = IntVal i))"
  proof (cases "score_less val (IntVal i)")
    case True
    from "3.IH"(2) [OF row drop call refl refl True wf cols] True show ?thesis
      unfolding val1_def col1_def by auto
  next
    case False
    from "3.IH"(3) [OF row drop call refl refl False wf cols] False show ?thesis
      unfolding val1_def col1_def by auto
  qed
  then obtain col' v' where ret: "returns (\<lambda>g. maximize g board depth cols val1 col1) (col', v')"
    and c': "col' = col1 \<or> col' \<in> set cols" and v': "v' = val1 \<or> (\<exists>i. v' = IntVal i)"
    by blast
  have unfold: "maximize g2 board depth (col # cols) val column2 =
      maximize g2' board depth cols val1 (if score_less val (IntVal i) then col else column2)"
    if "minimax g2 b' (depth - 1) False = Some ((c0, IntVal i), g2')" for g2 g2' column2
    using maximize_unfold [OF row drop that] by (simp add: val1_def)
  have r1: "returns (\<lambda>g. maximize g board depth (col # cols) val column) (col', v')"
  proof (rule returnsI)
    fix g2
    from returnsD [OF rec, of g2] obtain g2'
      where "minimax g2 b' (depth - 1) False = Some ((c0, IntVal i), g2')" by blast
    from unfold [OF this, of column] returnsD [OF ret, of g2']
    show "\<exists>g'. maximize g2 board depth (col # cols) val column = Some ((col', v'), g')"
      by (simp add: col1_def)
  qed
  have r2: "returns (\<lambda>g. maximize g board depth (col # cols) val column2) (col', v')"
    if "val = MinusInf" for column2
  proof (rule returnsI)
    fix g2
    from returnsD [OF rec, of g2] obtain g2'
      where "minimax g2 b' (depth - 1) False = Some ((c0, IntVal i), g2')" by blast
    from unfold [OF this, of column2] returnsD [OF ret, of g2'] that
    show "\<exists>g'. maximize g2 board depth (col # cols) val column2 = Some ((col', v'), g')"
      by (simp add: col1_def)
  qed
  have "col' = column \<or> col' \<in> set (col # cols)"
    using c' by (auto simp: col1_def split: if_splits)
  moreover have "v' = val \<or> (\<exists>i. v' = IntVal i)"
    using v' by (auto simp: val1_def split: if_splits)
  moreover have "col' \<in> set (col # cols) \<and> (\<exists>i. v' = IntVal i)" if "val = MinusInf"
    using c' v' that by (auto simp: col1_def val1_def)
  ultimately show ?case
    using r1 r2 by (intro exI [of _ col'] exI [of _ v']) simp
next
  case (4 g board depth val column)
  show ?case
    by (intro exI [of _ column] exI [of _ val]) (simp add: returns_def)
next
  case (5 g board depth col cols val column)
  note wf = \<open>wf_board board\<close>
  from \<open>valid_cols board (col # cols)\<close>
  have col: "col < 7" "board ! 5 ! col = EMPTY" and cols: "valid_cols board cols"
    by simp_all
  from drop_valid [OF wf col, of PLAYER_PIECE] obtain r b'
    where row: "get_next_open_row board col = Some (Some r)"
      and drop: "drop_piece board (Some r) col PLAYER_PIECE = Some b'" and wf': "wf_board b'"
    by blast
  from "5.IH"(1) [OF row drop wf'] obtain c0 i
    where rec: "returns (\<lambda>g. minimax g b' (depth - 1) True) (c0, IntVal i)"
    by blast
  from returnsD [OF rec, of g] obtain g1
    where call: "minimax g b' (depth - 1) True = Some ((c0, IntVal i), g1)"
    by blast
  define val1 where "val1 = (if score_less (IntVal i) val then IntVal i else val)"
  define col1 where "col1 = (if score_less (IntVal i) val then col else column)"
  have tail: "\<exists>col' v'. returns (\<lambda>g. minimize g board depth cols val1 col1) (col', v')
           \<and> (col' = col1 \<or> col' \<in> set cols)
           \<and> (v' = val1 \<or> (\<exists>i. v' = IntVal i))"
  proof (cases "score_less (IntVal i) val")
    case True
    from "5.IH"(2) [OF row drop call refl refl True wf cols] True show ?thesis
      unfolding val1_def col1_def by auto
  next
    case False
    from "5.IH"(3) [OF row drop call refl refl False wf cols] False show ?thesis
      unfolding val1_def col1_def by auto
  qed
  then obtain col' v' where ret: "returns (\<lambda>g. minimize g board depth cols val1 col1) (col', v')"
    and c': "col' = col1 \<or> col' \<in> set cols" and v': "v' = val1 \<or> (\<exists>i. v' = IntVal i)"
    by blast
  have unfold: "minimize g2 board depth (col # cols) val column2 =
      minimize g2' board depth cols val1 (if score_less (IntVal i) val then col else column2)"
    if "minimax g2 b' (depth - 1) True = Some ((c0, IntVal i), g2')" for g2 g2' column2
    using minimize_unfold [OF row drop that] by (simp add: val1_def)
  have r1: "returns (\<lambda>g. minimize g board depth (col # cols) val column) (col', v')"
  proof (rule returnsI)
    fix g2
    from returnsD [OF rec, of g2] obtain g2'
      where "minimax g2 b' (depth - 1) True = Some ((c0, IntVal i), g2')" by blast
    from unfold [OF this, of column] returnsD [OF ret, of g2']
    show "\<exists>g'. minimize g2 board depth (col # cols) val column = Some ((col', v'), g')"
      by (simp add: col1_def)
  qed
  have r2: "returns (\<lambda>g. minimize g board depth (col # cols) val column2) (col', v')"
    if "val = PlusInf" for column2
  proof (rule returnsI)
    fix g2
    from returnsD [OF rec, of g2] obtain g2'
      where "minimax g2 b' (depth - 1) True = Some ((c0, IntVal i), g2')" by blast
    from unfold [OF this, of column2] returnsD [OF ret, of g2'] that
    show "\<exists>g'. minimize g2 board depth (col # cols) val column2 = Some ((col', v'), g')"
      by (simp add: col1_def)
  qed
  have "col' = column \<or> col' \<in> set (col # cols)"
    using c' by (auto simp: col1_def split: if_splits)
  moreover have "v' = val \<or> (\<exists>i. v' = IntVal i)"
    using v' by (auto simp: val1_def split: if_splits)
  moreover have "col' \<in> set (col # cols) \<and> (\<exists>i. v' = IntVal i)" if "val = PlusInf"
    using c' v' that by (auto simp: col1_def val1_def)
  ultimately show ?case
    using r1 r2 by (intro exI [of _ col'] exI [of _ v']) simp
qed

subsection \<open>The results of the search\<close>

lemma wf_example_player_row: "wf_board example_player_row"
  by (simp add: wf_board_def example_player_row_def)

lemma wf_example_both: "wf_board example_both"
  by (simp add: wf_board_def example_both_def)

lemma wf_example_draw: "wf_board example_draw"
  by (simp add: wf_board_def example_draw_def)

text \<open>Every window scores between \<open>-4\<close> and 100, so the heuristic of a 6 by 7 board lies
  between \<open>-276\<close> and 6918.\<close>

lemma evaluate_window_bounds: "- 4 \<le> evaluate_window w p \<and> evaluate_window w p \<le> 100"
  by (simp add: evaluate_window_def Let_def)

lemma sum_list_bounds:
  "(\<And>x. x \<in> set xs \<Longrightarrow> lo \<le> f x \<and> f x \<le> hi) \<Longrightarrow>
   int (length xs) * lo \<le> sum_list (map f xs) \<and> sum_list (map f xs) \<le> int (length xs) * (hi :: int)"
proof (induction xs)
  case Nil
  show ?case by simp
next
  case (Cons a xs)
  have "lo \<le> f a" "f a \<le> hi"
    using Cons.prems [of a] by simp_all
  moreover have "int (length xs) * lo \<le> sum_list (map f xs)"
    "sum_list (map f xs) \<le> int (length xs) * hi"
    using Cons.IH Cons.prems by simp_all
  ultimately show ?case
    by (simp add: algebra_simps)
qed

lemma length_all_windows: "length (all_windows b) = 69"
  by (simp add: all_windows_def length_concat comp_def sum_list_triv)

lemma score_bounds:
  assumes "wf_board b"
  shows "- 276 \<le> 3 * int (center_count b p) + window_sum b p"
    and "3 * int (center_count b p) + window_sum b p \<le> 6918"
proof -
  have "center_count b p \<le> length b"
    unfolding center_count_def using count_le_length [of "map (\<lambda>row. row ! 3) b" p] by simp
  then have c: "center_count b p \<le> 6"
    using assms by (simp add: wf_board_def)
  have "int (length (all_windows b)) * (- 4) \<le> window_sum b p
      \<and> window_sum b p \<le> int (length (all_windows b)) * 100"
    unfolding window_sum_def by (rule sum_list_bounds) (rule evaluate_window_bounds)
  then have w: "- 276 \<le> window_sum b p" "window_sum b p \<le> 6900"
    by (simp_all add: length_all_windows)
  from c w show "- 276 \<le> 3 * int (center_count b p) + window_sum b p"
    and "3 * int (center_count b p) + window_sum b p \<le> 6918"
    by simp_all
qed

text \<open>
  C3. On every 6 by 7 board that is not terminal, \<open>minimax\<close> at depth 0 returns the
  column \<open>None\<close> and the score \<open>score_position board AI_PIECE\<close>, whether the flag
  \<open>maximizingPlayer\<close> is true or false; the generator is left as it was.
\<close>

theorem minimax_depth_zero:
  assumes "wf_board b" and "is_terminal_node b = Some False"
  shows "\<exists>s. score_position b AI_PIECE = Some s
           \<and> minimax g b 0 True = Some ((None, IntVal s), g)
           \<and> minimax g b 0 False = Some ((None, IntVal s), g)"
proof -
  from assms have "\<not> terminal b"
    by (simp add: is_terminal_node_wf)
  then show ?thesis
    using assms(1) by (simp add: minimax_base score_position_wf)
qed

theorem minimax_depth_zero_witness:
  "wf_board create_board \<and> is_terminal_node create_board = Some False
   \<and> score_position create_board AI_PIECE = Some 0
   \<and> minimax fixed_rng create_board 0 True = Some ((None, IntVal 0), fixed_rng)
   \<and> minimax fixed_rng create_board 0 False = Some ((None, IntVal 0), fixed_rng)"
proof -
  have t: "is_terminal_node create_board = Some False"
    by code_simp
  have s: "score_position create_board AI_PIECE = Some 0"
    by code_simp
  from minimax_depth_zero [OF wf_create_board t, of fixed_rng] s t wf_create_board
  show ?thesis by simp
qed

text \<open>
  C10. On every 6 by 7 board where both the computer's piece and the human's piece have
  four in a row, for every depth and flag, \<open>minimax\<close> returns the column \<open>None\<close> and
  the score 100000000000000: the check of the computer's win comes first.
\<close>

theorem minimax_both_won:
  assumes "wf_board b"
    and "winning_move b AI_PIECE = Some True" and "winning_move b PLAYER_PIECE = Some True"
  shows "minimax g b d m = Some ((None, IntVal 100000000000000), g)"
proof -
  from assms have "four_in_a_row b AI_PIECE"
    by (simp add: winning_move_wf)
  then show ?thesis
    using assms(1) by (simp add: minimax_base terminal_def)
qed

theorem minimax_both_won_witness:
  "wf_board example_both \<and> winning_move example_both AI_PIECE = Some True
   \<and> winning_move example_both PLAYER_PIECE = Some True
   \<and> minimax fixed_rng example_both 4 True = Some ((None, IntVal 100000000000000), fixed_rng)
   \<and> minimax fixed_rng example_both 0 False = Some ((None, IntVal 100000000000000), fixed_rng)"
proof -
  have a: "winning_move example_both AI_PIECE = Some True"
    by code_simp
  have p: "winning_move example_both PLAYER_PIECE = Some True"
    by code_simp
  from minimax_both_won [OF wf_example_both a p, of fixed_rng 4 True]
    minimax_both_won [OF wf_example_both a p, of fixed_rng 0 False] a p wf_example_both
  show ?thesis by simp
qed

lemma winning_move_True_wf:
  "wf_board b \<Longrightarrow> winning_move b p = Some True \<longleftrightarrow> four_in_a_row b p"
  by (simp add: winning_move_wf)

text \<open>
  C1, as amended. On every terminal 6 by 7 board and for every depth and flag,
  \<open>minimax\<close> returns the column \<open>None\<close> with the score 100000000000000 when the
  computer's piece has four in a row, otherwise with the score \<open>-10000000000000\<close> when
  the human's piece has four in a row, otherwise (a draw) with the score 0. The win
  score is ten times the loss score in magnitude. The heuristic of every 6 by 7 board
  lies strictly between the loss score and the win score, and the draw score 0 lies
  strictly between them too.
\<close>

theorem minimax_terminal_scores:
  "(\<forall>g b d m. wf_board b \<longrightarrow> is_terminal_node b = Some True \<longrightarrow>
      minimax g b d m =
        Some ((None, IntVal
          (if winning_move b AI_PIECE = Some True then 100000000000000
           else if winning_move b PLAYER_PIECE = Some True then - 10000000000000
           else 0)), g))
   \<and> (\<forall>b. wf_board b \<longrightarrow>
         (\<exists>s. score_position b AI_PIECE = Some s
            \<and> - 10000000000000 < s \<and> s < 100000000000000))
   \<and> - 10000000000000 < (0 :: int) \<and> (0 :: int) < 100000000000000"
proof (intro conjI allI impI)
  fix g b d m assume wf: "wf_board b" and t: "is_terminal_node b = Some True"
  from wf t have "terminal b"
    by (simp add: is_terminal_node_wf)
  then show "minimax g b d m =
        Some ((None, IntVal
          (if winning_move b AI_PIECE = Some True then 100000000000000
           else if winning_move b PLAYER_PIECE = Some True then - 10000000000000
           else 0)), g)"
    by (simp add: minimax_base [OF wf] winning_move_True_wf [OF wf])
next
  fix b assume wf: "wf_board b"
  from score_bounds [OF wf, of AI_PIECE]
  show "\<exists>s. score_position b AI_PIECE = Some s \<and> - 10000000000000 < s \<and> s < 100000000000000"
    by (simp add: score_position_wf [OF wf])
qed simp_all

theorem minimax_terminal_scores_witness:
  "wf_board example_ai_row \<and> is_terminal_node example_ai_row = Some True
   \<and> minimax fixed_rng example_ai_row 4 True = Some ((None, IntVal 100000000000000), fixed_rng)
   \<and> wf_board example_player_row \<and> is_terminal_node example_player_row = Some True
   \<and> minimax fixed_rng example_player_row 4 True
       = Some ((None, IntVal (- 10000000000000)), fixed_rng)
   \<and> wf_board example_draw \<and> is_terminal_node example_draw = Some True
   \<and> minimax fixed_rng example_draw 4 False = Some ((None, IntVal 0), fixed_rng)
   \<and> wf_board create_board \<and> score_position create_board AI_PIECE = Some 0"
proof -
  note t = minimax_terminal_scores [THEN conjunct1, rule_format]
  have ta: "is_terminal_node example_ai_row = Some True" by code_simp
  have wa: "winning_move example_ai_row AI_PIECE = Some True" by code_simp
  have tp: "is_terminal_node example_player_row = Some True" by code_simp
  have wp: "winning_move example_player_row AI_PIECE = Some False"
    "winning_move example_player_row PLAYER_PIECE = Some True" by code_simp+
  have td: "is_terminal_node example_draw = Some True" by code_simp
  have wd: "winning_move example_draw AI_PIECE = Some False"
    "winning_move example_draw PLAYER_PIECE = Some False" by code_simp+
  have s: "score_position create_board AI_PIECE = Some 0" by code_simp
  from t [OF wf_example_ai_row ta, of fixed_rng 4 True]
    t [OF wf_example_player_row tp, of fixed_rng 4 True]
    t [OF wf_example_draw td, of fixed_rng 4 False]
  show ?thesis
    using wa wp wd ta tp td s wf_example_ai_row wf_example_player_row wf_example_draw
      wf_create_board
    by simp
qed

text \<open>
  The claim C1 as it was stated, with one magnitude for the win score and the loss
  score, fails: on a board the human has won and the computer has not, the score is
  \<open>-10000000000000\<close>, while on a board the computer has won it is 100000000000000.
\<close>

theorem minimax_terminal_scores_counterexample:
  "winning_move example_player_row PLAYER_PIECE = Some True
   \<and> winning_move example_player_row AI_PIECE = Some False
   \<and> minimax fixed_rng example_player_row 4 True
       = Some ((None, IntVal (- 10000000000000)), fixed_rng)
   \<and> winning_move example_ai_row AI_PIECE = Some True
   \<and> minimax fixed_rng example_ai_row 4 True
       = Some ((None, IntVal 100000000000000), fixed_rng)
   \<and> - (100000000000000 :: int) \<noteq> - 10000000000000"
proof -
  have p: "four_in_a_row example_player_row PLAYER_PIECE"
    "\<not> four_in_a_row example_player_row AI_PIECE" by code_simp+
  have a: "four_in_a_row example_ai_row AI_PIECE" by code_simp
  show ?thesis
    using p a
    by (simp add: winning_move_wf wf_example_player_row wf_example_ai_row
        minimax_base terminal_def)
qed

text \<open>
  C2, as amended. On every 6 by 7 board, for every depth and flag and whatever the state
  of the random generator, \<open>minimax\<close> returns without raising. The returned column is
  \<open>None\<close> exactly when the depth is 0 or the board is terminal (four in a row of either
  piece, or no valid move); in particular it is \<open>None\<close> when no valid move exists.
  Otherwise it is a member of \<open>get_valid_locations board\<close>, hence a column in range.
\<close>

theorem minimax_column:
  assumes "wf_board b"
  shows "\<exists>col v vl t. get_valid_locations b = Some vl \<and> is_terminal_node b = Some t
           \<and> returns (\<lambda>g. minimax g b d m) (col, IntVal v)
           \<and> (col = None \<longleftrightarrow> d = 0 \<or> t)
           \<and> (vl = [] \<longrightarrow> col = None)
           \<and> (\<forall>c. col = Some c \<longrightarrow> c \<in> set vl \<and> c < COLUMN_COUNT)"
proof -
  from minimax_returns_aux(1) [OF assms, of d m] obtain col i
    where r: "returns (\<lambda>g. minimax g b d m) (col, IntVal i)"
      and n: "col = None \<longleftrightarrow> d = 0 \<or> terminal b"
      and c: "case col of None \<Rightarrow> True | Some c \<Rightarrow> c < 7 \<and> b ! 5 ! c = EMPTY"
    by blast
  let ?vl = "filter (\<lambda>c. b ! 5 ! c = EMPTY) [0..<7]"
  have "?vl = [] \<longrightarrow> col = None"
    using n by (simp add: terminal_def)
  moreover have "\<forall>c. col = Some c \<longrightarrow> c \<in> set ?vl \<and> c < 7"
    using c by auto
  ultimately show ?thesis
    using r n get_valid_locations_wf [OF assms] is_terminal_node_wf [OF assms] by blast
qed

theorem minimax_column_witness:
  "wf_board create_board
   \<and> (\<exists>col v vl t. get_valid_locations create_board = Some vl
         \<and> is_terminal_node create_board = Some t
         \<and> returns (\<lambda>g. minimax g create_board 4 True) (col, IntVal v)
         \<and> (col = None \<longleftrightarrow> (4 :: int) = 0 \<or> t)
         \<and> (vl = [] \<longrightarrow> col = None)
         \<and> (\<forall>c. col = Some c \<longrightarrow> c \<in> set vl \<and> c < COLUMN_COUNT))"
  using minimax_column [OF wf_create_board, of 4 True] wf_create_board by simp

text \<open>
  The claim C2 as it was stated fails: on the empty board at depth 0, and at depth 4 on
  a board the computer has already won, all seven columns are valid and the returned
  column is \<open>None\<close>.
\<close>

theorem minimax_column_counterexample:
  "get_valid_locations create_board = Some [0, 1, 2, 3, 4, 5, 6]
   \<and> minimax fixed_rng create_board 0 True = Some ((None, IntVal 0), fixed_rng)
   \<and> get_valid_locations example_ai_row = Some [0, 1, 2, 3, 4, 5, 6]
   \<and> minimax fixed_rng example_ai_row 4 True
       = Some ((None, IntVal 100000000000000), fixed_rng)"
proof -
  have "get_valid_locations create_board = Some [0, 1, 2, 3, 4, 5, 6]" by code_simp
  moreover have "get_valid_locations example_ai_row = Some [0, 1, 2, 3, 4, 5, 6]" by code_simp
  moreover have "\<not> terminal create_board" by code_simp
  moreover have "window_sum create_board AI_PIECE = 0" "center_count create_board AI_PIECE = 0"
    by code_simp+
  moreover have "four_in_a_row example_ai_row AI_PIECE" by code_simp
  ultimately show ?thesis
    by (simp add: minimax_base wf_create_board wf_example_ai_row terminal_def)
qed

text \<open>
  C6. On every 6 by 7 board, for every depth and flag, two calls of \<open>minimax\<close> return
  the same pair of column and score, and neither raises, whatever the states of the
  random generator at the two calls are.
\<close>

theorem minimax_deterministic:
  assumes "wf_board b"
  shows "\<exists>r. \<forall>g1 g2. map_option fst (minimax g1 b d m) = Some r
                    \<and> map_option fst (minimax g2 b d m) = Some r"
proof -
  from minimax_returns_aux(1) [OF assms, of d m] obtain col i
    where r: "returns (\<lambda>g. minimax g b d m) (col, IntVal i)"
    by blast
  have "map_option fst (minimax g b d m) = Some (col, IntVal i)" for g
    using returnsD [OF r, of g] by auto
  then show ?thesis by blast
qed

theorem minimax_deterministic_witness:
  "wf_board create_board
   \<and> get_valid_locations create_board = Some [0, 1, 2, 3, 4, 5, 6]
   \<and> (\<exists>r. \<forall>g1 g2. map_option fst (minimax g1 create_board 4 True) = Some r
                   \<and> map_option fst (minimax g2 create_board 4 True) = Some r)"
proof -
  have "get_valid_locations create_board = Some [0, 1, 2, 3, 4, 5, 6]" by code_simp
  with minimax_deterministic [OF wf_create_board, of 4 True] wf_create_board
  show ?thesis by simp
qed

end
